theory Spec2Isabelle
  imports Main "HOL-Library.Char_ord" "HOL-Library.List_Lexorder"
begin

section \<open>Tool loop detection: a shallow embedding of \<^verbatim>\<open>ToolLoopDetector\<close>\<close>

text \<open>
  The source is the loop-detection module of \<^verbatim>\<open>src/src/tools/web-fetch.ts\<close> (lines 466 to 712).
  JavaScript strings are modelled as \<^typ>\<open>string\<close>, read as the UTF-8 bytes of a well-formed
  string; a character outside ASCII is several bytes. Numbers are modelled as \<^typ>\<open>int\<close>
  (the integers a double holds exactly print as their decimal digits); counters of the
  detector are \<^typ>\<open>nat\<close>.
\<close>

subsection \<open>Structured values\<close>

text \<open>
  The values \<^verbatim>\<open>JSON.parse\<close> produces: null, booleans, numbers, strings, arrays and objects.
  An object is the list of its own enumerable properties in insertion order; a JavaScript
  object never holds a key twice, which \<open>wf_json\<close> states.
\<close>

datatype json =
    JNull
  | JBool bool
  | JNum int
  | JStr string
  | JArr "json list"
  | JObj "(string \<times> json) list"



subsection \<open>Decimal digits and JSON string quoting\<close>

text \<open>How a template literal and \<^verbatim>\<open>JSON.stringify\<close> print a non-negative integer.\<close>

definition digit_char :: "nat \<Rightarrow> char" where
  "digit_char d = char_of (48 + d)"

fun show_nat :: "nat \<Rightarrow> string" where
  "show_nat n = (if n < 10 then [digit_char n] else show_nat (n div 10) @ [digit_char (n mod 10)])"

declare show_nat.simps [simp del]

definition show_int :: "int \<Rightarrow> string" where
  "show_int i = (if i < 0 then CHR ''-'' # show_nat (nat (- i)) else show_nat (nat i))"

text \<open>
  \<^verbatim>\<open>JSON.stringify\<close> on a string (ECMAScript's QuoteJSONString): the quote, the backslash
  and the five control characters with a short form are escaped by a backslash, every other
  character below U+0020 as \<^verbatim>\<open>\u00XX\<close> in lower-case hexadecimal, and all others stand as
  they are.
\<close>

definition hex_char :: "nat \<Rightarrow> char" where
  "hex_char d = (if d < 10 then char_of (48 + d) else char_of (87 + d))"

definition backslash :: char where
  "backslash = CHR 0x5C"

definition dquote :: char where
  "dquote = CHR 0x22"

definition quote_char :: "char \<Rightarrow> string" where
  "quote_char c =
     (if c = CHR 0x08 then [backslash, CHR ''b'']
      else if c = CHR 0x09 then [backslash, CHR ''t'']
      else if c = CHR 0x0A then [backslash, CHR ''n'']
      else if c = CHR 0x0C then [backslash, CHR ''f'']
      else if c = CHR 0x0D then [backslash, CHR ''r'']
      else if c = dquote then [backslash, dquote]
      else if c = backslash then [backslash, backslash]
      else if (of_char c :: nat) < 32 then
        [backslash, CHR ''u'', CHR ''0'', CHR ''0'',
         hex_char (of_char c div 16), hex_char (of_char c mod 16)]
      else [c])"

definition quoteJSON :: "string \<Rightarrow> string" where
  "quoteJSON s = dquote # concat (map quote_char s) @ [dquote]"

text \<open>\<^verbatim>\<open>Array.prototype.join\<close> on an array of strings.\<close>

fun join :: "string \<Rightarrow> string list \<Rightarrow> string" where
  "join sep [] = []"
| "join sep [x] = x"
| "join sep (x # y # ys) = x @ sep @ join sep (y # ys)"

subsection \<open>Stable hashing\<close>

text \<open>
  \<^verbatim>\<open>stableStringify\<close>: scalars go through \<^verbatim>\<open>JSON.stringify\<close>, arrays keep their order,
  objects print their keys sorted. \<^verbatim>\<open>Object.keys(obj).sort()\<close> is \<open>sort (map fst kvs)\<close>, and
  \<^verbatim>\<open>obj[k]\<close> is \<open>map_of kvs k\<close>; a missing property would print as \<^verbatim>\<open>undefined\<close>, which
  cannot happen for a key of the object. The source sorts keys by UTF-16 code unit and
  the model by byte; the two orders agree on ASCII, and each is a total order, which is
  what makes the printed form independent of the insertion order.
\<close>

function stableStringify :: "json \<Rightarrow> string" where
  "stableStringify JNull = ''null''"
| "stableStringify (JBool b) = (if b then ''true'' else ''false'')"
| "stableStringify (JNum i) = show_int i"
| "stableStringify (JStr s) = quoteJSON s"
| "stableStringify (JArr xs) = ''['' @ join '','' (map stableStringify xs) @ '']''"
| "stableStringify (JObj kvs) =
     ''{'' @ join '',''
       (map (\<lambda>k. quoteJSON k @ '':'' @
               (case map_of kvs k of
                  None \<Rightarrow> ''undefined''
                | Some v \<Rightarrow> stableStringify v))
          (sort (map fst kvs))) @ ''}''"
  by pat_completeness auto
termination
proof (relation "measure size", goal_cases)
  case 1
  show ?case by simp
next
  case (2 xs x)
  then have "size x < Suc (size_list size xs)"
    by (simp add: less_Suc_eq_le size_list_estimation')
  then show ?case by simp
next
  case (3 kvs k v)
  then have "(k, v) \<in> set kvs"
    by (simp add: map_of_SomeD)
  then have "size_prod (\<lambda>_. 0) size (k, v) \<le> size_list (size_prod (\<lambda>_. 0) size) kvs"
    by (simp add: size_list_estimation')
  then show ?case by simp
qed

definition toolKey :: "string \<Rightarrow> json \<Rightarrow> string" where
  "toolKey name params = name @ '':'' @ stableStringify params"


subsection \<open>Outcome keys\<close>

text \<open>
  What a tool execution can throw: an \<^verbatim>\<open>Error\<close> with its message, or any other value, held
  as the string \<^verbatim>\<open>String(error)\<close> makes of it. \<^verbatim>\<open>undefined\<close> is \<open>None\<close> throughout.
\<close>

datatype thrown = ErrorInstance string | NonError string

text \<open>
  \<^verbatim>\<open>String.prototype.trim\<close> removes ECMAScript's white space and line terminators from both
  ends. In UTF-8 these are the six ASCII characters and the encodings of U+00A0, U+1680,
  U+2000 to U+200A, U+2028, U+2029, U+202F, U+205F, U+3000 and U+FEFF.
\<close>

definition js_whitespace :: "string list" where
  "js_whitespace =
     [[CHR 0x09], [CHR 0x0A], [CHR 0x0B], [CHR 0x0C], [CHR 0x0D], [CHR 0x20],
      [CHR 0xC2, CHR 0xA0], [CHR 0xE1, CHR 0x9A, CHR 0x80],
      [CHR 0xE2, CHR 0x80, CHR 0x80], [CHR 0xE2, CHR 0x80, CHR 0x81],
      [CHR 0xE2, CHR 0x80, CHR 0x82], [CHR 0xE2, CHR 0x80, CHR 0x83],
      [CHR 0xE2, CHR 0x80, CHR 0x84], [CHR 0xE2, CHR 0x80, CHR 0x85],
      [CHR 0xE2, CHR 0x80, CHR 0x86], [CHR 0xE2, CHR 0x80, CHR 0x87],
      [CHR 0xE2, CHR 0x80, CHR 0x88], [CHR 0xE2, CHR 0x80, CHR 0x89],
      [CHR 0xE2, CHR 0x80, CHR 0x8A], [CHR 0xE2, CHR 0x80, CHR 0xA8],
      [CHR 0xE2, CHR 0x80, CHR 0xA9], [CHR 0xE2, CHR 0x80, CHR 0xAF],
      [CHR 0xE2, CHR 0x81, CHR 0x9F], [CHR 0xE3, CHR 0x80, CHR 0x80],
      [CHR 0xEF, CHR 0xBB, CHR 0xBF]]"

function strip_leading :: "string list \<Rightarrow> string \<Rightarrow> string" where
  "strip_leading ws s =
     (case List.find (\<lambda>w. w \<noteq> [] \<and> take (length w) s = w) ws of
        None \<Rightarrow> s
      | Some w \<Rightarrow> strip_leading ws (drop (length w) s))"
  by pat_completeness auto
termination
proof (relation "measure (\<lambda>(ws, s). length s)", goal_cases)
  case 1
  show ?case by simp
next
  case (2 ws s w)
  then have "w \<noteq> [] \<and> take (length w) s = w"
    by (auto simp: find_Some_iff)
  then have "s \<noteq> [] \<and> 0 < length w"
    by auto
  then show ?case by simp
qed

declare strip_leading.simps [simp del]

definition trim :: "string \<Rightarrow> string" where
  "trim s = rev (strip_leading (map rev js_whitespace) (rev (strip_leading js_whitespace s)))"

text \<open>
  \<^verbatim>\<open>typeof e?.text === "string"\<close> holds for an object with a string property \<^verbatim>\<open>text\<close>; null,
  scalars and arrays have no such property.
\<close>

fun text_of :: "json \<Rightarrow> string option" where
  "text_of (JObj kvs) = (case map_of kvs ''text'' of Some (JStr t) \<Rightarrow> Some t | _ \<Rightarrow> None)"
| "text_of _ = None"

fun content_of :: "json \<Rightarrow> json list option" where
  "content_of (JObj kvs) = (case map_of kvs ''content'' of Some (JArr es) \<Rightarrow> Some es | _ \<Rightarrow> None)"
| "content_of _ = None"

definition outcomeKey :: "json option \<Rightarrow> thrown option \<Rightarrow> string option" where
  "outcomeKey result error =
     (case error of
        Some (ErrorInstance message) \<Rightarrow> Some (''error:'' @ message)
      | Some (NonError s) \<Rightarrow> Some (''error:'' @ s)
      | None \<Rightarrow>
          (case result of
             None \<Rightarrow> None
           | Some r \<Rightarrow>
               (case content_of r of
                  Some es \<Rightarrow>
                    Some (''text:'' @ trim (join [CHR 0x0A] (List.map_filter text_of es)))
                | None \<Rightarrow> Some (stableStringify r))))"

subsection \<open>The detector\<close>

record ToolCallRecord =
  key :: string
  toolName :: string
  resultKey :: "string option"

datatype level = warning | critical

datatype DetectionResult = NotStuck | Stuck level string

definition HISTORY_SIZE :: nat where "HISTORY_SIZE = 30"
definition WARNING_THRESHOLD :: nat where "WARNING_THRESHOLD = 10"
definition CRITICAL_THRESHOLD :: nat where "CRITICAL_THRESHOLD = 20"
definition CIRCUIT_BREAKER_THRESHOLD :: nat where "CIRCUIT_BREAKER_THRESHOLD = 30"
definition WARNING_BUCKET_SIZE :: nat where "WARNING_BUCKET_SIZE = 10"

text \<open>The two fields of the class; \<^verbatim>\<open>new ToolLoopDetector()\<close> is \<open>new_detector\<close>.\<close>

record ToolLoopDetector =
  history :: "ToolCallRecord list"
  warningBuckets :: "string \<rightharpoonup> int"

definition new_detector :: ToolLoopDetector where
  "new_detector = \<lparr>history = [], warningBuckets = Map.empty\<rparr>"

text \<open>
  JavaScript truthiness of a \<^verbatim>\<open>string | undefined\<close>: \<^verbatim>\<open>undefined\<close> and the empty string are
  falsy. The scans test \<^verbatim>\<open>!h.resultKey\<close> and \<^verbatim>\<open>!expectedResult\<close>.
\<close>

fun truthy :: "string option \<Rightarrow> bool" where
  "truthy None = False"
| "truthy (Some s) = (s \<noteq> [])"

text \<open>
  \<^verbatim>\<open>record\<close>: push the entry, then shift once when the length exceeds the window.
\<close>

definition new_record ::
  "string \<Rightarrow> json \<Rightarrow> json option \<Rightarrow> thrown option \<Rightarrow> ToolCallRecord" where
  "new_record name params result error =
     \<lparr>key = toolKey name params, toolName = name, resultKey = outcomeKey result error\<rparr>"

definition record_call ::
  "ToolLoopDetector \<Rightarrow> string \<Rightarrow> json \<Rightarrow> json option \<Rightarrow> thrown option \<Rightarrow> ToolLoopDetector" where
  "record_call d name params result error =
     (let pushed = history d @ [new_record name params result error]
      in d\<lparr>history := (if length pushed > HISTORY_SIZE then tl pushed else pushed)\<rparr>)"

text \<open>
  A sequence of \<^verbatim>\<open>record\<close> calls, each given by its four arguments, oldest first.
\<close>

type_synonym recorded = "string \<times> json \<times> json option \<times> thrown option"

fun record_of :: "recorded \<Rightarrow> ToolCallRecord" where
  "record_of (name, params, result, error) = new_record name params result error"

fun record_all :: "ToolLoopDetector \<Rightarrow> recorded list \<Rightarrow> ToolLoopDetector" where
  "record_all d [] = d"
| "record_all d ((name, params, result, error) # cs) =
     record_all (record_call d name params result error) cs"

text \<open>
  \<^verbatim>\<open>getNoProgressStreak\<close>: the loop runs from the last entry to the first, so the scan takes
  the history reversed; \<open>streak\<close> and \<open>expectedResult\<close> are the loop's two variables.
\<close>

fun streak_scan :: "string \<Rightarrow> ToolCallRecord list \<Rightarrow> nat \<Rightarrow> string option \<Rightarrow> nat" where
  "streak_scan k [] streak expectedResult = streak"
| "streak_scan k (h # hs) streak expectedResult =
     (if key h \<noteq> k then streak_scan k hs streak expectedResult
      else if \<not> truthy (resultKey h) then streak_scan k hs streak expectedResult
      else if \<not> truthy expectedResult then streak_scan k hs 1 (resultKey h)
      else if resultKey h \<noteq> expectedResult then streak
      else streak_scan k hs (streak + 1) expectedResult)"

definition getNoProgressStreak :: "ToolLoopDetector \<Rightarrow> string \<Rightarrow> nat" where
  "getNoProgressStreak d k = streak_scan k (rev (history d)) 0 None"

text \<open>
  The entries a streak can count: those of the queried key that have a truthy outcome key.
\<close>

definition counted :: "string \<Rightarrow> ToolCallRecord list \<Rightarrow> ToolCallRecord list" where
  "counted k hs = filter (\<lambda>h. key h = k \<and> truthy (resultKey h)) hs"

text \<open>
  \<^verbatim>\<open>getPingPongCount\<close>: the loop's variables are \<open>count\<close>, \<open>resultA\<close>, \<open>resultB\<close> and
  \<open>noProgress\<close>; the scan returns \<open>count\<close> and \<open>noProgress\<close> at the break or at the end.
\<close>

fun pingpong_scan ::
  "string \<Rightarrow> string \<Rightarrow> ToolCallRecord list \<Rightarrow> nat \<Rightarrow> string option \<Rightarrow> string option \<Rightarrow> bool
     \<Rightarrow> nat \<times> bool" where
  "pingpong_scan currentKey otherKey [] count resultA resultB noProgress = (count, noProgress)"
| "pingpong_scan currentKey otherKey (h # hs) count resultA resultB noProgress =
     (let expected = (if count mod 2 = 0 then otherKey else currentKey) in
      if key h \<noteq> expected then (count, noProgress)
      else if truthy (resultKey h) then
        (if key h = currentKey then
           (if \<not> truthy resultA then
              pingpong_scan currentKey otherKey hs (count + 1) (resultKey h) resultB noProgress
            else if resultA \<noteq> resultKey h then
              pingpong_scan currentKey otherKey hs (count + 1) resultA resultB False
            else pingpong_scan currentKey otherKey hs (count + 1) resultA resultB noProgress)
         else
           (if \<not> truthy resultB then
              pingpong_scan currentKey otherKey hs (count + 1) resultA (resultKey h) noProgress
            else if resultB \<noteq> resultKey h then
              pingpong_scan currentKey otherKey hs (count + 1) resultA resultB False
            else pingpong_scan currentKey otherKey hs (count + 1) resultA resultB noProgress))
      else pingpong_scan currentKey otherKey hs (count + 1) resultA resultB noProgress)"

definition getPingPongCount :: "ToolLoopDetector \<Rightarrow> string \<Rightarrow> nat" where
  "getPingPongCount d currentKey =
     (if length (history d) < 2 then 0
      else if key (last (history d)) = currentKey then 0
      else
        (case pingpong_scan currentKey (key (last (history d))) (rev (history d)) 0 None None True of
           (count, noProgress) \<Rightarrow> if count < 2 \<or> \<not> noProgress then 0 else count + 1))"

text \<open>The four messages of \<^verbatim>\<open>detect\<close>; the dash of two of them is U+2014.\<close>

definition em_dash :: string where
  "em_dash = [CHR 0xE2, CHR 0x80, CHR 0x94]"

definition circuit_breaker_message :: "string \<Rightarrow> nat \<Rightarrow> string" where
  "circuit_breaker_message name streak =
     ''BLOCKED: '' @ name @ '' repeated '' @ show_nat streak @
     '' times with no progress. Circuit breaker triggered '' @ em_dash @
     '' stop retrying and report the issue.''"

definition no_progress_message :: "string \<Rightarrow> nat \<Rightarrow> string" where
  "no_progress_message name streak =
     ''BLOCKED: '' @ name @ '' called '' @ show_nat streak @
     '' times with identical arguments and results. Stop retrying and try a different approach or report the task as failed.''"

definition pingpong_critical_message :: "nat \<Rightarrow> string" where
  "pingpong_critical_message ppCount =
     ''BLOCKED: Alternating tool pattern detected ('' @ show_nat ppCount @
     '' calls with no progress). Ping-pong loop '' @ em_dash @
     '' stop and try a different approach.''"

definition pingpong_warning_message :: "nat \<Rightarrow> string" where
  "pingpong_warning_message ppCount =
     ''WARNING: Alternating tool pattern ('' @ show_nat ppCount @
     '' calls). Possible ping-pong loop '' @ em_dash @ '' if not progressing, stop retrying.''"

definition repeat_message :: "string \<Rightarrow> nat \<Rightarrow> string" where
  "repeat_message name repeatCount =
     ''WARNING: '' @ name @ '' called '' @ show_nat repeatCount @
     '' times with identical arguments. If not progressing, stop retrying.''"

definition repeatCount :: "ToolLoopDetector \<Rightarrow> string \<Rightarrow> nat" where
  "repeatCount d k = length (filter (\<lambda>h. key h = k) (history d))"

text \<open>
  The methods take the detector and return it with their result, so that what each of them
  writes is part of the model. \<^verbatim>\<open>detect\<close> assigns to no field.
\<close>

definition detect :: "ToolLoopDetector \<Rightarrow> string \<Rightarrow> json \<Rightarrow> DetectionResult \<times> ToolLoopDetector" where
  "detect d name params =
     (let k = toolKey name params;
          streak = getNoProgressStreak d k
      in if streak \<ge> CIRCUIT_BREAKER_THRESHOLD then
           (Stuck critical (circuit_breaker_message name streak), d)
         else if streak \<ge> CRITICAL_THRESHOLD then
           (Stuck critical (no_progress_message name streak), d)
         else
           (let ppCount = getPingPongCount d k
            in if ppCount \<ge> CRITICAL_THRESHOLD then
                 (Stuck critical (pingpong_critical_message ppCount), d)
               else if ppCount \<ge> WARNING_THRESHOLD then
                 (Stuck warning (pingpong_warning_message ppCount), d)
               else if repeatCount d k \<ge> WARNING_THRESHOLD then
                 (Stuck warning (repeat_message name (repeatCount d k)), d)
               else (NotStuck, d)))"

text \<open>
  \<^verbatim>\<open>shouldWarn\<close>: \<^verbatim>\<open>this.warningBuckets.get(key) ?? -1\<close> is the bucket last stored, or \<open>-1\<close>.
\<close>

definition shouldWarn :: "ToolLoopDetector \<Rightarrow> string \<Rightarrow> json \<Rightarrow> bool \<times> ToolLoopDetector" where
  "shouldWarn d name params =
     (let k = toolKey name params;
          bucket = int (repeatCount d k div WARNING_BUCKET_SIZE);
          lastBucket = (case warningBuckets d k of None \<Rightarrow> - 1 | Some b \<Rightarrow> b)
      in if bucket \<le> lastBucket then (False, d)
         else (True, d\<lparr>warningBuckets := (warningBuckets d)(k \<mapsto> bucket)\<rparr>))"

definition reset :: "ToolLoopDetector \<Rightarrow> ToolLoopDetector" where
  "reset d = d\<lparr>history := [], warningBuckets := Map.empty\<rparr>"

subsection \<open>The wrapper\<close>

text \<open>
  \<^verbatim>\<open>wrapTool\<close> replaces \<^verbatim>\<open>execute\<close>. The original \<^verbatim>\<open>execute\<close> is a function from the
  parameters to what it returns or throws; the wrapped one returns that outcome, the
  lines written by \<^verbatim>\<open>console.error\<close>, and the detector.
\<close>

datatype outcome = Returned "json option" | Threw "thrown option"

definition warning_line :: "string \<Rightarrow> string" where
  "warning_line message =
     [CHR 0x1B] @ ''[33m[loop-detection] '' @ message @ [CHR 0x1B] @ ''[0m''"

definition wrapTool_execute ::
  "string \<Rightarrow> (json \<Rightarrow> outcome) \<Rightarrow> ToolLoopDetector \<Rightarrow> json
     \<Rightarrow> (outcome \<times> string list) \<times> ToolLoopDetector" where
  "wrapTool_execute name originalExecute d params =
     (case detect d name params of
        (Stuck critical message, d1) \<Rightarrow>
          ((Threw (Some (ErrorInstance message)), []), record_call d1 name params None None)
      | (check, d1) \<Rightarrow>
          (case (case check of
                   Stuck warning message \<Rightarrow>
                     (case shouldWarn d1 name params of
                        (True, d2) \<Rightarrow> ([warning_line message], d2)
                      | (False, d2) \<Rightarrow> ([], d2))
                 | _ \<Rightarrow> ([], d1)) of
             (printed, d2) \<Rightarrow>
               (case originalExecute params of
                  Returned result \<Rightarrow>
                    ((Returned result, printed), record_call d2 name params result None)
                | Threw err \<Rightarrow>
                    ((Threw err, printed), record_call d2 name params None err))))"


subsection \<open>Scenarios\<close>

text \<open>
  The caller's protocol without the wrapper: \<^verbatim>\<open>detect\<close> before each \<^verbatim>\<open>record\<close>, for a
  sequence of calls with their outcomes. The verdicts are returned in call order, so the
  verdict at index \<open>i\<close> is the one of the check made with \<open>i\<close> calls recorded.
\<close>

fun checked_rounds :: "ToolLoopDetector \<Rightarrow> recorded list \<Rightarrow> DetectionResult list \<times> ToolLoopDetector" where
  "checked_rounds d [] = ([], d)"
| "checked_rounds d ((name, params, result, error) # cs) =
     (case detect d name params of
        (verdict, d1) \<Rightarrow>
          (case checked_rounds (record_call d1 name params result error) cs of
             (verdicts, d2) \<Rightarrow> (verdict # verdicts, d2)))"

text \<open>The call of the end-to-end scenario: \<^verbatim>\<open>read\<close> of \<^verbatim>\<open>{"path":"a.txt"}\<close> failing with ENOENT.\<close>

definition read_enoent :: recorded where
  "read_enoent = (''read'', JObj [(''path'', JStr ''a.txt'')], None, Some (ErrorInstance ''ENOENT''))"

text \<open>
  A window of 30 entries in which 20 failing reads are interleaved with 10 other calls.
\<close>

definition write_null :: recorded where
  "write_null = (''write'', JNull, None, None)"

definition interleaved_reads :: ToolLoopDetector where
  "interleaved_reads = record_all new_detector (concat (replicate 10 [read_enoent, read_enoent, write_null]))"


text \<open>The detector after the failing read was recorded 20 times: the next check blocks.\<close>

definition twenty_failed_reads :: ToolLoopDetector where
  "twenty_failed_reads = record_all new_detector (replicate 20 read_enoent)"


subsection \<open>The alternating run\<close>

text \<open>
  The entries the ping-pong scan visits before it breaks: the longest run, from the most
  recent entry backward, whose keys alternate between the other key and the current key.
  The list is given most recent first; \<open>count\<close> is the number of entries already visited.
\<close>

fun alternating_run :: "string \<Rightarrow> string \<Rightarrow> ToolCallRecord list \<Rightarrow> nat \<Rightarrow> ToolCallRecord list" where
  "alternating_run currentKey otherKey [] count = []"
| "alternating_run currentKey otherKey (h # hs) count =
     (if key h = (if count mod 2 = 0 then otherKey else currentKey)
      then h # alternating_run currentKey otherKey hs (count + 1)
      else [])"

text \<open>The distinct outcome keys that the entries of one key show in a run.\<close>

definition outcomes_seen :: "string \<Rightarrow> ToolCallRecord list \<Rightarrow> string option list" where
  "outcomes_seen side run =
     remdups (map resultKey (filter (\<lambda>h. key h = side \<and> truthy (resultKey h)) run))"

text \<open>The run that \<^verbatim>\<open>getPingPongCount\<close> scans for a key.\<close>

definition scanned_run :: "ToolLoopDetector \<Rightarrow> string \<Rightarrow> ToolCallRecord list" where
  "scanned_run d currentKey =
     alternating_run currentKey (key (last (history d))) (rev (history d)) 0"

text \<open>What one side's tracker (\<open>resultA\<close> or \<open>resultB\<close>) concludes from the truthy outcome keys it meets.\<close>

fun agree :: "string option \<Rightarrow> string option list \<Rightarrow> bool" where
  "agree r [] = True"
| "agree r (x # xs) = (if truthy r then r = x \<and> agree r xs else agree x xs)"

text \<open>
  A ping-pong: \<^verbatim>\<open>ls\<close> and the failing read alternate, \<^verbatim>\<open>ls\<close> first, each with the same outcome
  every time. In \<open>pingpong_changed\<close> the first read of 19 such calls returned data instead.
\<close>

definition list_dir :: recorded where
  "list_dir = (''ls'', JNull, Some (JStr ''a.txt''), None)"

definition read_data :: recorded where
  "read_data = (''read'', JObj [(''path'', JStr ''a.txt'')], Some (JStr ''data''), None)"

definition pingpong_calls :: "nat \<Rightarrow> recorded list" where
  "pingpong_calls n = map (\<lambda>i. if even i then list_dir else read_enoent) [0..<n]"

definition pingpong_changed :: ToolLoopDetector where
  "pingpong_changed = record_all new_detector ((pingpong_calls 19)[1 := read_data])"

subsection \<open>Reading a key back\<close>











section \<open>Properties\<close>

subsection \<open>The window\<close>

lemma history_record_call:
  assumes "length (history d) \<le> HISTORY_SIZE"
  shows "history (record_call d name params result error) =
     drop (Suc (length (history d)) - HISTORY_SIZE) (history d @ [new_record name params result error])"
proof (cases "length (history d) = HISTORY_SIZE")
  case True
  then show ?thesis
    by (cases "history d") (auto simp: record_call_def Let_def)
next
  case False
  with assms have "length (history d) < HISTORY_SIZE" by simp
  then show ?thesis
    by (simp add: record_call_def Let_def)
qed

lemma length_history_record_call:
  "length (history d) \<le> HISTORY_SIZE \<Longrightarrow>
   length (history (record_call d name params result error)) \<le> HISTORY_SIZE"
  by (auto simp: record_call_def Let_def HISTORY_SIZE_def)

lemma drop_window_append:
  "drop (length (drop (length xs - n) xs @ ys) - n) (drop (length xs - n) xs @ ys)
     = drop (length (xs @ ys) - n) (xs @ ys)"
proof (cases "length xs \<le> n")
  case True
  then show ?thesis by simp
next
  case False
  then have "length (drop (length xs - n) xs @ ys) - n = length ys"
    by simp
  moreover from False have "length (xs @ ys) - n = (length xs - n) + length ys"
    by simp
  ultimately show ?thesis
    by (simp add: add.commute flip: drop_drop)
qed

lemma history_record_all:
  "length (history d) \<le> HISTORY_SIZE \<Longrightarrow>
   history (record_all d cs) =
     drop (length (history d @ map record_of cs) - HISTORY_SIZE) (history d @ map record_of cs)"
proof (induction cs arbitrary: d)
  case Nil
  then show ?case by simp
next
  case (Cons c cs)
  obtain name params result error where c: "c = (name, params, result, error)"
    by (cases c) auto
  let ?d = "record_call d name params result error"
  have len: "length (history ?d) \<le> HISTORY_SIZE"
    using Cons.prems by (rule length_history_record_call)
  have h: "history ?d = drop (length (history d @ [record_of c]) - HISTORY_SIZE) (history d @ [record_of c])"
    using Cons.prems by (simp add: history_record_call c)
  have "history (record_all d (c # cs)) = history (record_all ?d cs)"
    by (simp add: c)
  also have "\<dots> = drop (length (history ?d @ map record_of cs) - HISTORY_SIZE)
                     (history ?d @ map record_of cs)"
    using len by (rule Cons.IH)
  also have "\<dots> = drop (length ((history d @ [record_of c]) @ map record_of cs) - HISTORY_SIZE)
                     ((history d @ [record_of c]) @ map record_of cs)"
    unfolding h by (rule drop_window_append)
  finally show ?case by simp
qed

lemma history_record_all_new:
  "history (record_all new_detector cs) = map record_of (drop (length cs - HISTORY_SIZE) cs)"
  using history_record_all [of new_detector cs]
  by (simp add: new_detector_def drop_map)

lemma warningBuckets_record_call [simp]:
  "warningBuckets (record_call d name params result error) = warningBuckets d"
  by (simp add: record_call_def Let_def)

lemma warningBuckets_record_all [simp]:
  "warningBuckets (record_all d cs) = warningBuckets d"
  by (induction d cs rule: record_all.induct) simp_all

text \<open>
  Claim C5. Whatever calls are recorded into a fresh detector, the history never holds more
  than 30 entries: it holds the last 30 calls recorded (all of them while there are at most
  30), in recording order, so its length is the smaller of 30 and the number of calls.
\<close>

theorem history_is_last_30:
  "length (history (record_all new_detector cs)) \<le> 30 \<and>
   length (history (record_all new_detector cs)) = min (length cs) 30 \<and>
   history (record_all new_detector cs) = map record_of (drop (length cs - 30) cs)"
  by (simp add: history_record_all_new HISTORY_SIZE_def min_def)

theorem history_is_last_30_witness:
  "length (history (record_all new_detector
      (replicate 31 read_enoent @ [(''write'', JNull, None, None)]))) = 30 \<and>
   history (record_all new_detector
      (replicate 31 read_enoent @ [(''write'', JNull, None, None)])) =
     replicate 29 (record_of read_enoent) @ [record_of (''write'', JNull, None, None)]"
  using history_is_last_30 [of "replicate 31 read_enoent @ [(''write'', JNull, None, None)]"]
  by (simp add: numeral_eq_Suc)

subsection \<open>The no-progress streak\<close>

lemma show_nat_nonempty: "show_nat n \<noteq> []"
  by (subst show_nat.simps) simp

lemma stableStringify_nonempty: "stableStringify v \<noteq> []"
  by (cases v) (simp_all add: show_int_def show_nat_nonempty quoteJSON_def)

lemma outcomeKey_truthy: "outcomeKey result error = Some s \<Longrightarrow> s \<noteq> []"
  by (auto simp: outcomeKey_def stableStringify_nonempty split: option.splits thrown.splits)

lemma streak_scan_filter:
  "streak_scan k (filter (\<lambda>h. key h = k) hs) s e = streak_scan k hs s e"
  by (induction hs arbitrary: s e) simp_all

lemma streak_scan_expected:
  "truthy e \<Longrightarrow>
   streak_scan k hs s e = s + length (takeWhile (\<lambda>h. resultKey h = e) (counted k hs))"
  by (induction hs arbitrary: s) (auto simp: counted_def)

lemma streak_scan_start:
  "streak_scan k hs s None =
     (case counted k hs of
        [] \<Rightarrow> s
      | m # ms \<Rightarrow> Suc (length (takeWhile (\<lambda>h. resultKey h = resultKey m) ms)))"
proof (induction hs)
  case Nil
  show ?case by (simp add: counted_def)
next
  case (Cons h hs)
  show ?case
  proof (cases "key h = k \<and> truthy (resultKey h)")
    case True
    then show ?thesis
      using streak_scan_expected [of "resultKey h" k hs 1]
      by (simp add: counted_def)
  next
    case False
    then show ?thesis
      using Cons.IH by (auto simp: counted_def)
  qed
qed

lemma streak_scan_le_counted: "streak_scan k hs 0 None \<le> length (counted k hs)"
proof (cases "counted k hs")
  case Nil
  then show ?thesis by (simp add: streak_scan_start)
next
  case (Cons m ms)
  have "length (takeWhile (\<lambda>h. resultKey h = resultKey m) ms) \<le> length ms"
    by (rule length_takeWhile_le)
  with Cons show ?thesis by (simp add: streak_scan_start)
qed

lemma length_counted_le: "length (counted k hs) \<le> length (filter (\<lambda>h. key h = k) hs)"
  unfolding counted_def by (induction hs) auto

lemma getNoProgressStreak_le_repeatCount: "getNoProgressStreak d k \<le> repeatCount d k"
proof -
  have "getNoProgressStreak d k \<le> length (counted k (rev (history d)))"
    unfolding getNoProgressStreak_def by (rule streak_scan_le_counted)
  also have "\<dots> \<le> length (filter (\<lambda>h. key h = k) (rev (history d)))"
    by (rule length_counted_le)
  also have "\<dots> = repeatCount d k"
    by (simp add: repeatCount_def flip: rev_filter)
  finally show ?thesis .
qed

lemma counted_replicate:
  "key e = k \<Longrightarrow> truthy (resultKey e) \<Longrightarrow> counted k (replicate n e) = replicate n e"
  by (simp add: counted_def)

lemma streak_scan_replicate:
  assumes "key e = k" and "truthy (resultKey e)"
  shows "streak_scan k (replicate n e) 0 None = n"
proof (cases n)
  case 0
  then show ?thesis by simp
next
  case (Suc m)
  have "counted k (replicate n e) = e # replicate m e"
    using assms by (simp add: counted_def Suc)
  moreover have "takeWhile (\<lambda>h. resultKey h = resultKey e) (replicate m e) = replicate m e"
    by (simp add: takeWhile_eq_all_conv)
  ultimately show ?thesis
    by (simp add: streak_scan_start Suc)
qed

lemma getPingPongCount_last_same:
  "history d \<noteq> [] \<Longrightarrow> key (last (history d)) = k \<Longrightarrow> getPingPongCount d k = 0"
  by (simp add: getPingPongCount_def)

lemma getPingPongCount_short:
  "length (history d) < 2 \<Longrightarrow> getPingPongCount d k = 0"
  by (simp add: getPingPongCount_def)

text \<open>A detector whose window holds one call only.\<close>

lemma getPingPongCount_all_same:
  assumes "\<forall>h\<in>set (history d). key h = k"
  shows "getPingPongCount d k = 0"
proof (cases "history d = []")
  case True
  then show ?thesis by (simp add: getPingPongCount_def)
next
  case False
  then have "key (last (history d)) = k"
    using assms by simp
  then show ?thesis by (simp add: getPingPongCount_def)
qed

lemma repeatCount_all_same:
  assumes "\<forall>h\<in>set (history d). key h = k"
  shows "repeatCount d k = length (history d)"
  using assms by (simp add: repeatCount_def)

lemma detect_without_pingpong:
  assumes "getPingPongCount d (toolKey name params) = 0"
  shows "fst (detect d name params) =
     (let k = toolKey name params; streak = getNoProgressStreak d k in
      if CIRCUIT_BREAKER_THRESHOLD \<le> streak then Stuck critical (circuit_breaker_message name streak)
      else if CRITICAL_THRESHOLD \<le> streak then Stuck critical (no_progress_message name streak)
      else if WARNING_THRESHOLD \<le> repeatCount d k then Stuck warning (repeat_message name (repeatCount d k))
      else NotStuck)"
  using assms
  by (simp add: detect_def Let_def CRITICAL_THRESHOLD_def WARNING_THRESHOLD_def)

lemma history_replicate_records:
  "history (record_all new_detector (replicate n c)) = replicate (min n HISTORY_SIZE) (record_of c)"
  by (simp add: history_record_all_new min_def)

lemma detect_repeated_same_outcome:
  assumes "outcomeKey result error = Some r"
  shows "fst (detect (record_all new_detector (replicate n (name, params, result, error))) name params) =
     (if n < 10 then NotStuck
      else if n < 20 then Stuck warning (repeat_message name n)
      else if n < 30 then Stuck critical (no_progress_message name n)
      else Stuck critical (circuit_breaker_message name 30))"
proof -
  let ?c = "(name, params, result, error)"
  let ?d = "record_all new_detector (replicate n ?c)"
  let ?k = "toolKey name params"
  have h: "history ?d = replicate (min n HISTORY_SIZE) (record_of ?c)"
    by (rule history_replicate_records)
  have k: "key (record_of ?c) = ?k"
    by (simp add: new_record_def)
  have t: "truthy (resultKey (record_of ?c))"
    using assms outcomeKey_truthy [OF assms] by (simp add: new_record_def)
  have all: "\<forall>h\<in>set (history ?d). key h = ?k"
    unfolding h using k by simp
  have pp: "getPingPongCount ?d ?k = 0"
    using all by (rule getPingPongCount_all_same)
  have rc: "repeatCount ?d ?k = min n HISTORY_SIZE"
    using repeatCount_all_same [OF all] by (simp add: h)
  have st: "getNoProgressStreak ?d ?k = min n HISTORY_SIZE"
    unfolding getNoProgressStreak_def h
    using streak_scan_replicate [OF k t] by simp
  show ?thesis
    unfolding detect_without_pingpong [OF pp] Let_def st rc
    by (simp add: HISTORY_SIZE_def CIRCUIT_BREAKER_THRESHOLD_def CRITICAL_THRESHOLD_def
        WARNING_THRESHOLD_def min_def)
qed


lemma snd_detect [simp]: "snd (detect d name params) = d"
  by (simp add: detect_def Let_def)

lemma checked_rounds_replicate:
  "fst (checked_rounds d (replicate n (name, params, result, error))) =
     map (\<lambda>i. fst (detect (record_all d (replicate i (name, params, result, error))) name params)) [0..<n]"
proof (induction n arbitrary: d)
  case 0
  show ?case by simp
next
  case (Suc n)
  let ?c = "(name, params, result, error)"
  let ?d = "record_call d name params result error"
  have d: "detect d name params = (fst (detect d name params), d)"
    by (metis snd_detect prod.collapse)
  have "fst (checked_rounds d (replicate (Suc n) ?c)) =
          fst (detect d name params) # fst (checked_rounds ?d (replicate n ?c))"
    by (subst replicate_Suc, subst checked_rounds.simps, subst d) (simp split: prod.splits)
  also have "fst (checked_rounds ?d (replicate n ?c)) =
          map (\<lambda>i. fst (detect (record_all d (replicate (Suc i) ?c)) name params)) [0..<n]"
    by (simp add: Suc.IH)
  finally show ?case
    by (simp add: upt_conv_Cons map_Suc_upt [symmetric] del: upt_Suc)
qed

text \<open>
  Claim C1, as the code has it. The same call is recorded with the same error every time,
  with a check before each record, starting from a fresh detector. The check made with
  \<open>i\<close> calls recorded (the check before call \<open>i + 1\<close>) is not stuck for \<open>i < 10\<close>, a warning
  that names \<open>i\<close> occurrences for \<open>10 \<le> i < 20\<close>, the no-progress block that names \<open>i\<close>
  occurrences for \<open>20 \<le> i < 30\<close>, and the circuit breaker from 30 on. So the first
  critical verdict is the one of the 21st check, and it mentions 20 occurrences; the
  checks before calls 11 to 20 warn.
\<close>

theorem identical_error_escalation:
  "fst (checked_rounds new_detector (replicate n (name, params, None, Some (ErrorInstance message)))) =
     map (\<lambda>i. if i < 10 then NotStuck
              else if i < 20 then Stuck warning (repeat_message name i)
              else if i < 30 then Stuck critical (no_progress_message name i)
              else Stuck critical (circuit_breaker_message name 30)) [0..<n]"
proof -
  have "outcomeKey None (Some (ErrorInstance message)) = Some (''error:'' @ message)"
    by (simp add: outcomeKey_def)
  then show ?thesis
    by (simp add: checked_rounds_replicate detect_repeated_same_outcome)
qed

theorem identical_error_escalation_witness:
  "fst (checked_rounds new_detector (replicate 21 read_enoent)) ! 20 =
     Stuck critical ''BLOCKED: read called 20 times with identical arguments and results. Stop retrying and try a different approach or report the task as failed.'' \<and>
   fst (checked_rounds new_detector (replicate 21 read_enoent)) ! 10 =
     Stuck warning ''WARNING: read called 10 times with identical arguments. If not progressing, stop retrying.''"
  using identical_error_escalation [of 21 "''read''" "JObj [(''path'', JStr ''a.txt'')]" "''ENOENT''"]
  by (simp add: read_enoent_def no_progress_message_def repeat_message_def show_nat.simps digit_char_def char_of_eq_iff)

text \<open>
  Claim C1 as stated fails: in the end-to-end scenario the 20th check, made with 19 calls
  recorded, is a warning that mentions 19 occurrences, and the 10th check, made with 9
  calls recorded, is not stuck.
\<close>

theorem twentieth_check_counterexample:
  "fst (checked_rounds new_detector (replicate 20 read_enoent)) ! 19 =
     Stuck warning ''WARNING: read called 19 times with identical arguments. If not progressing, stop retrying.'' \<and>
   fst (checked_rounds new_detector (replicate 20 read_enoent)) ! 9 = NotStuck"
proof -
  have "outcomeKey None (Some (ErrorInstance ''ENOENT'')) = Some ''error:ENOENT''"
    by (simp add: outcomeKey_def)
  then show ?thesis
    by (simp add: read_enoent_def checked_rounds_replicate detect_repeated_same_outcome
        repeat_message_def show_nat.simps digit_char_def char_of_eq_iff)
qed

subsection \<open>Interleaved calls\<close>

lemma getNoProgressStreak_filter:
  "getNoProgressStreak (d\<lparr>history := filter (\<lambda>h. key h = k) (history d)\<rparr>) k = getNoProgressStreak d k"
  by (simp add: getNoProgressStreak_def rev_filter streak_scan_filter)

lemma counted_same_outcome:
  assumes "\<forall>h\<in>set hs. key h = k \<longrightarrow> resultKey h = Some r" and "r \<noteq> []"
  shows "counted k hs = filter (\<lambda>h. key h = k) hs"
    and "\<forall>h\<in>set (counted k hs). resultKey h = Some r"
  using assms by (auto simp: counted_def intro: filter_cong)

lemma streak_scan_same_outcome:
  assumes "\<forall>h\<in>set hs. key h = k \<longrightarrow> resultKey h = Some r" and "r \<noteq> []"
  shows "streak_scan k hs 0 None = length (filter (\<lambda>h. key h = k) hs)"
proof (cases "counted k hs")
  case Nil
  then show ?thesis
    using counted_same_outcome(1) [OF assms] by (simp add: streak_scan_start)
next
  case (Cons m ms)
  have c: "counted k hs = filter (\<lambda>h. key h = k) hs"
    using assms by (rule counted_same_outcome(1))
  have "\<forall>h\<in>set (m # ms). resultKey h = Some r"
    using counted_same_outcome(2) [OF assms] Cons by simp
  then have tw: "takeWhile (\<lambda>h. resultKey h = resultKey m) ms = ms"
    by (simp add: takeWhile_eq_all_conv)
  have "streak_scan k hs 0 None = Suc (length (takeWhile (\<lambda>h. resultKey h = resultKey m) ms))"
    using Cons by (simp add: streak_scan_start)
  also have "\<dots> = length (counted k hs)"
    unfolding tw Cons by simp
  finally show ?thesis
    by (simp only: c)
qed

lemma getNoProgressStreak_same_outcome:
  assumes "\<forall>h\<in>set (history d). key h = k \<longrightarrow> resultKey h = Some r" and "r \<noteq> []"
  shows "getNoProgressStreak d k = repeatCount d k"
proof -
  have "\<forall>h\<in>set (rev (history d)). key h = k \<longrightarrow> resultKey h = Some r"
    using assms(1) by simp
  then have "streak_scan k (rev (history d)) 0 None = length (filter (\<lambda>h. key h = k) (rev (history d)))"
    using assms(2) by (rule streak_scan_same_outcome)
  then show ?thesis
    by (simp add: getNoProgressStreak_def repeatCount_def flip: rev_filter)
qed

lemma streak_below_window:
  assumes "length (history d) \<le> HISTORY_SIZE" and "h \<in> set (history d)" and "key h \<noteq> k"
  shows "getNoProgressStreak d k < CIRCUIT_BREAKER_THRESHOLD"
proof -
  have "getNoProgressStreak d k \<le> repeatCount d k"
    by (rule getNoProgressStreak_le_repeatCount)
  also have "repeatCount d k < length (history d)"
    unfolding repeatCount_def using assms(2,3) by (rule length_filter_less)
  also have "\<dots> \<le> CIRCUIT_BREAKER_THRESHOLD"
    using assms(1) by (simp add: HISTORY_SIZE_def CIRCUIT_BREAKER_THRESHOLD_def)
  finally show ?thesis .
qed

lemma length_history_record_all_new:
  "length (history (record_all new_detector cs)) \<le> HISTORY_SIZE"
  by (simp add: history_record_all_new)

lemma detect_critical_streak:
  assumes "CRITICAL_THRESHOLD \<le> getNoProgressStreak d (toolKey name params)"
  shows "fst (detect d name params) =
     Stuck critical
       (if CIRCUIT_BREAKER_THRESHOLD \<le> getNoProgressStreak d (toolKey name params)
        then circuit_breaker_message name (getNoProgressStreak d (toolKey name params))
        else no_progress_message name (getNoProgressStreak d (toolKey name params)))"
  using assms by (simp add: detect_def Let_def)

text \<open>
  Claim C10, as the code has it. The streak scan skips the entries of other keys: the
  streak of a key is the streak over the history filtered to that key. So when every entry
  of the key carries the same outcome key, the streak is the number of those entries,
  whatever stands between them, and from 20 such entries on the check is a critical
  verdict. The circuit-breaker threshold is another matter: the window holds 30 entries, so
  with an entry of another key in it the streak stays below 30.
\<close>

theorem other_keys_are_skipped:
  "getNoProgressStreak (d\<lparr>history := filter (\<lambda>h. key h = toolKey name params) (history d)\<rparr>)
       (toolKey name params) = getNoProgressStreak d (toolKey name params) \<and>
   ((\<forall>h\<in>set (history d). key h = toolKey name params \<longrightarrow> resultKey h = Some r) \<and> r \<noteq> [] \<longrightarrow>
      getNoProgressStreak d (toolKey name params) = repeatCount d (toolKey name params) \<and>
      (20 \<le> repeatCount d (toolKey name params) \<longrightarrow>
         fst (detect d name params) =
           Stuck critical
             (if 30 \<le> repeatCount d (toolKey name params)
              then circuit_breaker_message name (repeatCount d (toolKey name params))
              else no_progress_message name (repeatCount d (toolKey name params))))) \<and>
   (length (history d) \<le> 30 \<and> (\<exists>h\<in>set (history d). key h \<noteq> toolKey name params) \<longrightarrow>
      getNoProgressStreak d (toolKey name params) < 30)"
proof -
  let ?k = "toolKey name params"
  have skip: "getNoProgressStreak (d\<lparr>history := filter (\<lambda>h. key h = ?k) (history d)\<rparr>) ?k =
      getNoProgressStreak d ?k"
    by (rule getNoProgressStreak_filter)
  have same: "getNoProgressStreak d ?k = repeatCount d ?k"
    if "\<forall>h\<in>set (history d). key h = ?k \<longrightarrow> resultKey h = Some r" and "r \<noteq> []"
    using that by (rule getNoProgressStreak_same_outcome)
  have blocked: "fst (detect d name params) =
      Stuck critical
        (if 30 \<le> repeatCount d ?k then circuit_breaker_message name (repeatCount d ?k)
         else no_progress_message name (repeatCount d ?k))"
    if "getNoProgressStreak d ?k = repeatCount d ?k" and "20 \<le> repeatCount d ?k"
    using that detect_critical_streak [of d name params]
    by (simp add: CRITICAL_THRESHOLD_def CIRCUIT_BREAKER_THRESHOLD_def)
  have bound: "getNoProgressStreak d ?k < 30"
    if "length (history d) \<le> 30" and "h \<in> set (history d)" and "key h \<noteq> ?k" for h
    using that streak_below_window [of d h ?k]
    by (simp add: HISTORY_SIZE_def CIRCUIT_BREAKER_THRESHOLD_def)
  show ?thesis
    using skip same blocked bound by blast
qed

lemma history_interleaved_reads:
  "history interleaved_reads =
     concat (replicate 10 [record_of read_enoent, record_of read_enoent, record_of write_null])"
  by (simp add: interleaved_reads_def history_record_all_new HISTORY_SIZE_def numeral_eq_Suc)

lemma toolKey_read: "toolKey ''read'' (JObj [(''path'', JStr ''a.txt'')]) = ''read:{'' @ [dquote] @ ''path'' @ [dquote] @ '':'' @ [dquote] @ ''a.txt'' @ [dquote] @ ''}''"
  by (simp add: toolKey_def quoteJSON_def quote_char_def dquote_def backslash_def)

lemma records_eval:
  "record_of read_enoent = \<lparr>key = toolKey ''read'' (JObj [(''path'', JStr ''a.txt'')]), toolName = ''read'', resultKey = Some ''error:ENOENT''\<rparr>"
  "record_of write_null = \<lparr>key = ''write:null'', toolName = ''write'', resultKey = None\<rparr>"
  by (simp_all add: read_enoent_def write_null_def new_record_def outcomeKey_def toolKey_def)

theorem other_keys_are_skipped_witness:
  "getNoProgressStreak interleaved_reads (toolKey ''read'' (JObj [(''path'', JStr ''a.txt'')])) = 20 \<and>
   fst (detect interleaved_reads ''read'' (JObj [(''path'', JStr ''a.txt'')])) =
     Stuck critical (no_progress_message ''read'' 20) \<and>
   (\<exists>h\<in>set (history interleaved_reads). key h \<noteq> toolKey ''read'' (JObj [(''path'', JStr ''a.txt'')]))"
proof -
  have rc: "repeatCount interleaved_reads (toolKey ''read'' (JObj [(''path'', JStr ''a.txt'')])) = 20"
    by (simp add: repeatCount_def history_interleaved_reads records_eval toolKey_read numeral_eq_Suc)
  have same: "\<forall>h\<in>set (history interleaved_reads).
      key h = toolKey ''read'' (JObj [(''path'', JStr ''a.txt'')]) \<longrightarrow> resultKey h = Some ''error:ENOENT''"
    by (simp add: history_interleaved_reads records_eval toolKey_read numeral_eq_Suc)
  have other: "\<exists>h\<in>set (history interleaved_reads). key h \<noteq> toolKey ''read'' (JObj [(''path'', JStr ''a.txt'')])"
    by (simp add: history_interleaved_reads records_eval toolKey_read numeral_eq_Suc)
  show ?thesis
    using other_keys_are_skipped [where d = interleaved_reads and name = "''read''"
        and params = "JObj [(''path'', JStr ''a.txt'')]" and r = "''error:ENOENT''"]
      rc same other
    by simp
qed


text \<open>
  Claim C10 as stated fails for the circuit breaker: no sequence of recorded calls leaves a
  window that holds an entry of another key and a streak of 30.
\<close>

theorem circuit_breaker_needs_full_window:
  "\<not> (\<exists>cs k. (\<exists>h\<in>set (history (record_all new_detector cs)). key h \<noteq> k) \<and>
        CIRCUIT_BREAKER_THRESHOLD \<le> getNoProgressStreak (record_all new_detector cs) k)"
  using streak_below_window length_history_record_all_new
  by (metis not_le)

subsection \<open>A change of outcome\<close>







subsection \<open>The generic repeat\<close>




subsection \<open>What each method writes\<close>

lemma snd_checked_rounds: "snd (checked_rounds d cs) = record_all d cs"
proof (induction d cs rule: record_all.induct)
  case (1 d)
  show ?case by simp
next
  case (2 d name params result error cs)
  have "detect d name params = (fst (detect d name params), d)"
    by (metis snd_detect prod.collapse)
  then show ?case
    using "2.IH" by (auto split: prod.splits)
qed

text \<open>
  Claim C9. \<^verbatim>\<open>detect\<close> returns the detector it was given, history and warning buckets alike;
  \<^verbatim>\<open>shouldWarn\<close> leaves the history as it is, and \<^verbatim>\<open>record\<close> leaves the warning buckets as
  they are. So the history changes in \<^verbatim>\<open>record\<close> (and \<^verbatim>\<open>reset\<close>) only: a sequence of calls
  with a check before each record leaves the detector that the records alone leave.
\<close>

theorem detect_is_read_only:
  "snd (detect d name params) = d \<and>
   history (snd (shouldWarn d name params)) = history d \<and>
   warningBuckets (record_call d name params result error) = warningBuckets d \<and>
   snd (checked_rounds d cs) = record_all d cs"
  by (simp add: snd_checked_rounds) (simp add: detect_def shouldWarn_def record_call_def Let_def)

subsection \<open>Blocked calls\<close>

lemma length_takeWhile_append_le:
  "length (takeWhile P xs) \<le> length (takeWhile P (xs @ ys))"
  by (induction xs) simp_all

lemma counted_append: "counted k (xs @ ys) = counted k xs @ counted k ys"
  by (simp add: counted_def)

lemma streak_scan_append_le:
  "streak_scan k xs 0 None \<le> streak_scan k (xs @ ys) 0 None"
proof (cases "counted k xs")
  case Nil
  then show ?thesis by (simp add: streak_scan_start)
next
  case (Cons m ms)
  then show ?thesis
    by (simp add: streak_scan_start counted_append length_takeWhile_append_le)
qed

lemma streak_scan_butlast_le:
  "streak_scan k (butlast xs) 0 None \<le> streak_scan k xs 0 None"
proof (cases "xs = []")
  case True
  then show ?thesis by simp
next
  case False
  then have "xs = butlast xs @ [last xs]" by simp
  then show ?thesis
    using streak_scan_append_le [of k "butlast xs" "[last xs]"] by simp
qed

lemma history_record_call_cases:
  "history (record_call d name params result error) =
     (if length (history d) < HISTORY_SIZE then history d @ [new_record name params result error]
      else tl (history d) @ [new_record name params result error])"
  by (cases "history d") (auto simp: record_call_def Let_def HISTORY_SIZE_def)

lemma streak_after_blocked_record:
  "getNoProgressStreak (record_call d name params None None) k =
     (if length (history d) < HISTORY_SIZE then getNoProgressStreak d k
      else streak_scan k (butlast (rev (history d))) 0 None)"
  by (simp add: getNoProgressStreak_def history_record_call_cases new_record_def outcomeKey_def
      butlast_rev)

lemma streak_after_blocked_record_le:
  "getNoProgressStreak (record_call d name params None None) k \<le> getNoProgressStreak d k"
  using streak_scan_butlast_le [of k "rev (history d)"]
  by (simp add: streak_after_blocked_record) (simp add: getNoProgressStreak_def)

lemma wrapTool_execute_blocked:
  assumes "fst (detect d name params) = Stuck critical message"
  shows "wrapTool_execute name originalExecute d params =
     ((Threw (Some (ErrorInstance message)), []), record_call d name params None None)"
proof -
  have "detect d name params = (Stuck critical message, d)"
    using assms snd_detect [of d name params] by (metis prod.collapse)
  then show ?thesis
    by (simp add: wrapTool_execute_def)
qed

text \<open>
  Claim C2, as the code has it. When the pre-flight check is critical, the wrapped
  \<^verbatim>\<open>execute\<close> does not run the tool: it throws an \<^verbatim>\<open>Error\<close> with the verdict's message,
  having recorded the attempt by \<^verbatim>\<open>record(name, params)\<close>, that is with no result and no
  error. The entry so recorded is the last of the history and has no outcome key, so the
  streak scan skips it: the streak of that call does not grow (it is unchanged while the
  window is not full, and can only shrink when the oldest entry is evicted). The entry
  does count for the generic repeat count.
\<close>

theorem blocked_attempt_is_recorded_without_outcome:
  assumes "fst (detect d name params) = Stuck critical message"
  shows "wrapTool_execute name originalExecute d params =
           ((Threw (Some (ErrorInstance message)), []), record_call d name params None None) \<and>
         last (history (record_call d name params None None)) =
           \<lparr>key = toolKey name params, toolName = name, resultKey = None\<rparr> \<and>
         getNoProgressStreak (record_call d name params None None) (toolKey name params)
           \<le> getNoProgressStreak d (toolKey name params) \<and>
         (length (history d) < 30 \<longrightarrow>
            getNoProgressStreak (record_call d name params None None) (toolKey name params)
              = getNoProgressStreak d (toolKey name params) \<and>
            repeatCount (record_call d name params None None) (toolKey name params)
              = Suc (repeatCount d (toolKey name params)))"
proof -
  have "last (history (record_call d name params None None)) =
           \<lparr>key = toolKey name params, toolName = name, resultKey = None\<rparr>"
    by (simp add: history_record_call_cases new_record_def outcomeKey_def)
  moreover have "repeatCount (record_call d name params None None) (toolKey name params)
              = Suc (repeatCount d (toolKey name params))" if "length (history d) < 30"
    using that by (simp add: repeatCount_def history_record_call_cases HISTORY_SIZE_def new_record_def)
  ultimately show ?thesis
    using wrapTool_execute_blocked [OF assms, of originalExecute]
      streak_after_blocked_record_le [of d name params "toolKey name params"]
    by (simp add: streak_after_blocked_record HISTORY_SIZE_def)
qed


lemma detect_twenty_failed_reads:
  "fst (detect twenty_failed_reads ''read'' (JObj [(''path'', JStr ''a.txt'')])) =
     Stuck critical (no_progress_message ''read'' 20)"
proof -
  have "outcomeKey None (Some (ErrorInstance ''ENOENT'')) = Some ''error:ENOENT''"
    by (simp add: outcomeKey_def)
  then show ?thesis
    by (simp add: twenty_failed_reads_def read_enoent_def detect_repeated_same_outcome)
qed

lemma history_twenty_failed_reads:
  "history twenty_failed_reads = replicate 20 (record_of read_enoent)"
  by (simp add: twenty_failed_reads_def history_replicate_records HISTORY_SIZE_def)

lemma streak_twenty_failed_reads:
  "getNoProgressStreak twenty_failed_reads (toolKey ''read'' (JObj [(''path'', JStr ''a.txt'')])) = 20"
  unfolding getNoProgressStreak_def history_twenty_failed_reads
  using streak_scan_replicate [of "record_of read_enoent" "toolKey ''read'' (JObj [(''path'', JStr ''a.txt'')])" 20]
  by (simp add: read_enoent_def new_record_def outcomeKey_def)

theorem blocked_attempt_is_recorded_without_outcome_witness:
  "wrapTool_execute ''read'' (\<lambda>_. Returned None) twenty_failed_reads (JObj [(''path'', JStr ''a.txt'')]) =
     ((Threw (Some (ErrorInstance (no_progress_message ''read'' 20))), []),
      record_call twenty_failed_reads ''read'' (JObj [(''path'', JStr ''a.txt'')]) None None) \<and>
   getNoProgressStreak (record_call twenty_failed_reads ''read'' (JObj [(''path'', JStr ''a.txt'')]) None None)
      (toolKey ''read'' (JObj [(''path'', JStr ''a.txt'')])) = 20 \<and>
   repeatCount (record_call twenty_failed_reads ''read'' (JObj [(''path'', JStr ''a.txt'')]) None None)
      (toolKey ''read'' (JObj [(''path'', JStr ''a.txt'')])) = 21"
proof -
  have "length (history twenty_failed_reads) < 30"
    by (simp add: history_twenty_failed_reads)
  moreover have "repeatCount twenty_failed_reads (toolKey ''read'' (JObj [(''path'', JStr ''a.txt'')])) = 20"
    by (simp add: repeatCount_def history_twenty_failed_reads read_enoent_def new_record_def)
  ultimately show ?thesis
    using blocked_attempt_is_recorded_without_outcome [OF detect_twenty_failed_reads, of "\<lambda>_. Returned None"]
      streak_twenty_failed_reads
    by simp
qed

text \<open>
  Claim C2 as stated fails: after 20 identical failures the wrapped call is blocked and
  recorded, the history holds 21 entries of the call, and its streak is 20 as before.
\<close>

theorem blocked_attempt_not_counted_counterexample:
  "fst (wrapTool_execute ''read'' (\<lambda>_. Returned None) twenty_failed_reads (JObj [(''path'', JStr ''a.txt'')])) =
     (Threw (Some (ErrorInstance (no_progress_message ''read'' 20))), []) \<and>
   length (history (snd (wrapTool_execute ''read'' (\<lambda>_. Returned None) twenty_failed_reads
      (JObj [(''path'', JStr ''a.txt'')])))) = 21 \<and>
   getNoProgressStreak twenty_failed_reads (toolKey ''read'' (JObj [(''path'', JStr ''a.txt'')])) = 20 \<and>
   getNoProgressStreak
     (snd (wrapTool_execute ''read'' (\<lambda>_. Returned None) twenty_failed_reads (JObj [(''path'', JStr ''a.txt'')])))
     (toolKey ''read'' (JObj [(''path'', JStr ''a.txt'')])) = 20"
  using streak_twenty_failed_reads
  by (simp add: wrapTool_execute_blocked [OF detect_twenty_failed_reads] streak_after_blocked_record
      history_record_call_cases history_twenty_failed_reads HISTORY_SIZE_def)

subsection \<open>Warning buckets\<close>


lemma repeatCount_update_buckets [simp]:
  "repeatCount (d\<lparr>warningBuckets := w\<rparr>) k = repeatCount d k"
  by (simp add: repeatCount_def)






subsection \<open>Ping-pong\<close>

lemma pingpong_scan_run:
  "pingpong_scan cur other hs count rA rB np =
     (count + length (alternating_run cur other hs count),
      np \<and>
      agree rA (map resultKey (filter (\<lambda>h. truthy (resultKey h) \<and> key h = cur)
                  (alternating_run cur other hs count))) \<and>
      agree rB (map resultKey (filter (\<lambda>h. truthy (resultKey h) \<and> key h \<noteq> cur)
                  (alternating_run cur other hs count))))"
proof (induction hs arbitrary: count rA rB np)
  case Nil
  show ?case by simp
next
  case (Cons h hs)
  show ?case
    using Cons.IH by (auto simp: Let_def)
qed


lemma agree_truthy: "truthy r \<Longrightarrow> agree r xs \<longleftrightarrow> (\<forall>x\<in>set xs. x = r)"
  by (induction xs) auto

lemma agree_start:
  "\<not> truthy r \<Longrightarrow> \<forall>x\<in>set xs. truthy x \<Longrightarrow> agree r xs \<longleftrightarrow> (\<forall>x\<in>set xs. \<forall>y\<in>set xs. x = y)"
proof (induction xs)
  case Nil
  show ?case by simp
next
  case (Cons x xs)
  then have "truthy x" by simp
  then have "agree r (x # xs) \<longleftrightarrow> (\<forall>y\<in>set xs. y = x)"
    using Cons.prems(1) by (simp add: agree_truthy)
  then show ?case by auto
qed

lemma remdups_at_most_one:
  "length (remdups xs) \<le> 1 \<longleftrightarrow> (\<forall>x\<in>set xs. \<forall>y\<in>set xs. x = y)"
  by (simp add: length_remdups_card_conv card_le_Suc0_iff_eq)

lemma agree_outcomes_seen:
  "agree None (map resultKey (filter (\<lambda>h. truthy (resultKey h) \<and> key h = side) run)) \<longleftrightarrow>
     \<not> 1 < length (outcomes_seen side run)"
proof -
  let ?ys = "map resultKey (filter (\<lambda>h. key h = side \<and> truthy (resultKey h)) run)"
  have eq: "map resultKey (filter (\<lambda>h. truthy (resultKey h) \<and> key h = side) run) = ?ys"
    by (simp add: conj_commute)
  have "\<forall>x\<in>set ?ys. truthy x" by auto
  then have "agree None ?ys \<longleftrightarrow> (\<forall>x\<in>set ?ys. \<forall>y\<in>set ?ys. x = y)"
    by (intro agree_start) simp_all
  also have "\<dots> \<longleftrightarrow> length (remdups ?ys) \<le> 1"
    by (simp only: remdups_at_most_one)
  finally show ?thesis
    unfolding eq outcomes_seen_def by (simp add: not_less)
qed

lemma alternating_run_keys:
  "h \<in> set (alternating_run cur other hs count) \<Longrightarrow> key h = cur \<or> key h = other"
  by (induction hs arbitrary: count) (auto split: if_splits)

lemma other_side_filter:
  assumes "other \<noteq> cur"
  shows "filter (\<lambda>h. truthy (resultKey h) \<and> key h \<noteq> cur) (alternating_run cur other hs count) =
         filter (\<lambda>h. truthy (resultKey h) \<and> key h = other) (alternating_run cur other hs count)"
  using assms by (intro filter_cong) (auto dest: alternating_run_keys)

lemma pingpong_scan_outcomes:
  assumes "other \<noteq> cur"
  shows "pingpong_scan cur other hs 0 None None True =
     (length (alternating_run cur other hs 0),
      \<not> (1 < length (outcomes_seen cur (alternating_run cur other hs 0)) \<or>
         1 < length (outcomes_seen other (alternating_run cur other hs 0))))"
  by (simp add: pingpong_scan_run other_side_filter [OF assms] agree_outcomes_seen)

lemma getPingPongCount_run:
  "getPingPongCount d k =
     (if length (history d) < 2 \<or> key (last (history d)) = k then 0
      else if length (scanned_run d k) < 2 \<or>
              1 < length (outcomes_seen k (scanned_run d k)) \<or>
              1 < length (outcomes_seen (key (last (history d))) (scanned_run d k))
           then 0
           else length (scanned_run d k) + 1)"
  by (auto simp: getPingPongCount_def scanned_run_def pingpong_scan_outcomes)

lemma detect_below_critical_streak:
  assumes "getNoProgressStreak d (toolKey name params) < CRITICAL_THRESHOLD"
  shows "fst (detect d name params) =
     (if CRITICAL_THRESHOLD \<le> getPingPongCount d (toolKey name params)
      then Stuck critical (pingpong_critical_message (getPingPongCount d (toolKey name params)))
      else if WARNING_THRESHOLD \<le> getPingPongCount d (toolKey name params)
      then Stuck warning (pingpong_warning_message (getPingPongCount d (toolKey name params)))
      else if WARNING_THRESHOLD \<le> repeatCount d (toolKey name params)
      then Stuck warning (repeat_message name (repeatCount d (toolKey name params)))
      else NotStuck)"
  using assms
  by (simp add: detect_def Let_def CRITICAL_THRESHOLD_def CIRCUIT_BREAKER_THRESHOLD_def)


text \<open>
  Claim C4. The ping-pong count is 0 when the history has fewer than two entries or its
  most recent entry has the key of the current call. Otherwise the scan visits the
  alternating run; if either of the two keys shows more than one distinct outcome key
  among its entries in the run, the count is 0, however long the run is, and then the
  verdict is the one the other detectors give; if both sides are stable (and the run has at
  least two entries) the count is the length of the run plus one. With a no-progress streak
  below 20, so that no earlier detector fires, a count of 20 or more is the ping-pong
  block and a count from 10 to 19 the ping-pong warning.
\<close>

theorem pingpong_count_and_verdict:
  "getPingPongCount d (toolKey name params) =
     (if length (history d) < 2 \<or> key (last (history d)) = toolKey name params then 0
      else if 1 < length (outcomes_seen (toolKey name params) (scanned_run d (toolKey name params))) \<or>
              1 < length (outcomes_seen (key (last (history d))) (scanned_run d (toolKey name params)))
           then 0
           else if length (scanned_run d (toolKey name params)) < 2 then 0
           else length (scanned_run d (toolKey name params)) + 1) \<and>
   (getPingPongCount d (toolKey name params) = 0 \<longrightarrow>
      fst (detect d name params) =
        (if 30 \<le> getNoProgressStreak d (toolKey name params)
         then Stuck critical (circuit_breaker_message name (getNoProgressStreak d (toolKey name params)))
         else if 20 \<le> getNoProgressStreak d (toolKey name params)
         then Stuck critical (no_progress_message name (getNoProgressStreak d (toolKey name params)))
         else if 10 \<le> repeatCount d (toolKey name params)
         then Stuck warning (repeat_message name (repeatCount d (toolKey name params)))
         else NotStuck)) \<and>
   (getNoProgressStreak d (toolKey name params) < 20 \<longrightarrow>
      (20 \<le> getPingPongCount d (toolKey name params) \<longrightarrow>
         fst (detect d name params) =
           Stuck critical (pingpong_critical_message (getPingPongCount d (toolKey name params)))) \<and>
      (10 \<le> getPingPongCount d (toolKey name params) \<and> getPingPongCount d (toolKey name params) < 20 \<longrightarrow>
         fst (detect d name params) =
           Stuck warning (pingpong_warning_message (getPingPongCount d (toolKey name params)))))"
proof -
  let ?k = "toolKey name params"
  have count: "getPingPongCount d ?k =
     (if length (history d) < 2 \<or> key (last (history d)) = ?k then 0
      else if 1 < length (outcomes_seen ?k (scanned_run d ?k)) \<or>
              1 < length (outcomes_seen (key (last (history d))) (scanned_run d ?k))
           then 0
           else if length (scanned_run d ?k) < 2 then 0
           else length (scanned_run d ?k) + 1)"
    by (simp add: getPingPongCount_run)
  have none: "fst (detect d name params) =
        (if 30 \<le> getNoProgressStreak d ?k
         then Stuck critical (circuit_breaker_message name (getNoProgressStreak d ?k))
         else if 20 \<le> getNoProgressStreak d ?k
         then Stuck critical (no_progress_message name (getNoProgressStreak d ?k))
         else if 10 \<le> repeatCount d ?k
         then Stuck warning (repeat_message name (repeatCount d ?k))
         else NotStuck)" if "getPingPongCount d ?k = 0"
    using detect_without_pingpong [OF that]
    by (simp add: Let_def CIRCUIT_BREAKER_THRESHOLD_def CRITICAL_THRESHOLD_def WARNING_THRESHOLD_def)
  have verdict: "(20 \<le> getPingPongCount d ?k \<longrightarrow>
         fst (detect d name params) = Stuck critical (pingpong_critical_message (getPingPongCount d ?k))) \<and>
      (10 \<le> getPingPongCount d ?k \<and> getPingPongCount d ?k < 20 \<longrightarrow>
         fst (detect d name params) = Stuck warning (pingpong_warning_message (getPingPongCount d ?k)))"
    if "getNoProgressStreak d ?k < 20"
    using that detect_below_critical_streak [of d name params]
    by (simp add: CRITICAL_THRESHOLD_def WARNING_THRESHOLD_def)
  show ?thesis
    using count none verdict by blast
qed

lemma pingpong_eval:
  "getPingPongCount (record_all new_detector (pingpong_calls 9)) (toolKey ''read'' (JObj [(''path'', JStr ''a.txt'')])) = 10"
  "getPingPongCount (record_all new_detector (pingpong_calls 19)) (toolKey ''read'' (JObj [(''path'', JStr ''a.txt'')])) = 20"
  "getNoProgressStreak (record_all new_detector (pingpong_calls 9)) (toolKey ''read'' (JObj [(''path'', JStr ''a.txt'')])) = 4"
  "getNoProgressStreak (record_all new_detector (pingpong_calls 19)) (toolKey ''read'' (JObj [(''path'', JStr ''a.txt'')])) = 9"
  "length (scanned_run pingpong_changed (toolKey ''read'' (JObj [(''path'', JStr ''a.txt'')]))) = 19"
  "length (outcomes_seen (toolKey ''read'' (JObj [(''path'', JStr ''a.txt'')]))
     (scanned_run pingpong_changed (toolKey ''read'' (JObj [(''path'', JStr ''a.txt'')])))) = 2"
  "getNoProgressStreak pingpong_changed (toolKey ''read'' (JObj [(''path'', JStr ''a.txt'')])) = 8"
  "repeatCount pingpong_changed (toolKey ''read'' (JObj [(''path'', JStr ''a.txt'')])) = 9"
  by code_simp+


theorem pingpong_count_and_verdict_witness:
  "fst (detect (record_all new_detector (pingpong_calls 9)) ''read'' (JObj [(''path'', JStr ''a.txt'')])) =
     Stuck warning (pingpong_warning_message 10) \<and>
   fst (detect (record_all new_detector (pingpong_calls 19)) ''read'' (JObj [(''path'', JStr ''a.txt'')])) =
     Stuck critical (pingpong_critical_message 20) \<and>
   getPingPongCount pingpong_changed
     (toolKey ''read'' (JObj [(''path'', JStr ''a.txt'')])) = 0 \<and>
   fst (detect pingpong_changed
     ''read'' (JObj [(''path'', JStr ''a.txt'')])) = NotStuck"
proof -
  let ?p = "JObj [(''path'', JStr ''a.txt'')]"
  have 1: "fst (detect (record_all new_detector (pingpong_calls 9)) ''read'' ?p) =
     Stuck warning (pingpong_warning_message 10)"
    using pingpong_count_and_verdict [of "record_all new_detector (pingpong_calls 9)" "''read''" ?p]
    by (simp add: pingpong_eval)
  have 2: "fst (detect (record_all new_detector (pingpong_calls 19)) ''read'' ?p) =
     Stuck critical (pingpong_critical_message 20)"
    using pingpong_count_and_verdict [of "record_all new_detector (pingpong_calls 19)" "''read''" ?p]
    by (simp add: pingpong_eval)
  have 3: "getPingPongCount pingpong_changed (toolKey ''read'' ?p) = 0"
    using pingpong_count_and_verdict [of pingpong_changed "''read''" ?p]
    by (simp add: pingpong_eval)
  have 4: "fst (detect pingpong_changed ''read'' ?p) = NotStuck"
    using pingpong_count_and_verdict [of pingpong_changed "''read''" ?p] 3
    by (simp add: pingpong_eval)
  show ?thesis
    using 1 2 3 4 by simp
qed

subsection \<open>Keys: numbers\<close>












subsection \<open>Keys: strings\<close>









subsection \<open>Keys: values\<close>


















end
